theory Spec2Isabelle
  imports Main "HOL-Library.Word"
begin

unbundle bit_operations_syntax

section \<open>Data model of EmbeddedTelnet\<close>

text \<open>
  A \<open>uint8_t\<close> is an 8-bit word and a \<open>size_t\<close> a 64-bit word (as on an LP64
  target), so that \<open>i--\<close> at index 0 followed by \<open>i++\<close> wraps round and back exactly as
  the C does.
  The enumeration fields of a packet (\<open>telnet_command_t\<close>, \<open>telnet_option_t\<close>,
  \<open>telnet_subnegotiation_t\<close>) hold one wire byte each: every value the reader stores
  there is a \<open>uint8_t\<close>, and every value the writer emits is converted to one.
\<close>

type_synonym byte = "8 word"
type_synonym size_t = "64 word"

definition TELNET_SE :: byte where "TELNET_SE = 240"
definition TELNET_NOP :: byte where "TELNET_NOP = 241"
definition TELNET_SB :: byte where "TELNET_SB = 250"
definition TELNET_WILL :: byte where "TELNET_WILL = 251"
definition TELNET_WONT :: byte where "TELNET_WONT = 252"
definition TELNET_DO :: byte where "TELNET_DO = 253"
definition TELNET_DONT :: byte where "TELNET_DONT = 254"
definition TELNET_IAC :: byte where "TELNET_IAC = 255"

definition TELNET_SE_IS :: byte where "TELNET_SE_IS = 0"
definition TELNET_SE_SEND :: byte where "TELNET_SE_SEND = 1"

definition TELNET_OPTION_BINARY :: byte where "TELNET_OPTION_BINARY = 0"
definition TELNET_OPTION_MAX :: nat where "TELNET_OPTION_MAX = 50"

lemmas telnet_constants =
  TELNET_SE_def TELNET_NOP_def TELNET_SB_def TELNET_WILL_def TELNET_WONT_def
  TELNET_DO_def TELNET_DONT_def TELNET_IAC_def TELNET_SE_IS_def TELNET_SE_SEND_def
  TELNET_OPTION_BINARY_def TELNET_OPTION_MAX_def

datatype telnet_parse_state =
    TELNET_STATE_READY
  | TELNET_STATE_IN_COMMAND
  | TELNET_STATE_IN_OPTION
  | TELNET_STATE_IN_SUBNEGOTIATION_TYPE
  | TELNET_STATE_IN_SUBNEGOTIATION_VALUE
  | TELNET_STATE_IN_SB_IAC

text \<open>
  \<open>subnegotiation_data\<close> is the array \<open>uint8_t[64]\<close>; the model keeps it as a list and
  checks every index against the capacity 64 where the C indexes the array.
\<close>

record telnet_packet =
  command :: byte
  option :: byte
  subnegotiation_type :: byte
  subnegotiation_length :: size_t
  subnegotiation_data :: "byte list"

text \<open>
  \<open>subnegotiation_options\<close> is the table of 50 borrowed pointers; an entry is \<open>None\<close>
  for \<open>NULL\<close> and otherwise the bytes of the object the pointer refers to (a C string:
  the reply is what precedes its first zero byte). \<open>user_data\<close> is an opaque address.
\<close>

record telnet_session =
  state :: telnet_parse_state
  packet :: telnet_packet
  options :: "64 word"
  subnegotiation_options :: "nat \<Rightarrow> byte list option"
  user_data :: "nat option"

text \<open>
  What C leaves undefined is a value of the model: a function that would shift a 64-bit
  word by 64 or more, or index an array beyond its capacity, returns the fault instead
  of a result.
\<close>

datatype fault =
    Shift_Out_Of_Range
  | Array_Out_Of_Bounds
  | Unterminated_String

text \<open>
  The two collaborators. A callback reads the session and the packet and answers whether
  the automatic reply may be sent; it does not change the session, which only the
  functions of the library mutate. The writer is a sink: the model records the bytes of
  each invocation, in order, together with the packet of each callback invocation.
\<close>

type_synonym telnet_packet_callback = "telnet_session \<Rightarrow> telnet_packet \<Rightarrow> bool"

datatype event =
    Callback_Invoked telnet_packet
  | Writer_Invoked "byte list"

section \<open>Arithmetic of size_t\<close>

lemma size_t_succ_neq_0: "i < len \<Longrightarrow> (i + 1 :: size_t) \<noteq> 0"
proof
  assume lt: "i < len" and z: "i + 1 = 0"
  from z have "i = - 1" by (simp add: eq_neg_iff_add_eq_0)
  with lt show False by simp
qed

lemma unat_succ_lt: "i < len \<Longrightarrow> unat (i + 1 :: size_t) = Suc (unat i)"
  using unatSuc [of i] size_t_succ_neq_0 [of i len] by (simp add: add.commute)

lemma unat_pred_gt: "i < len \<Longrightarrow> unat (len - 1 :: size_t) = unat len - 1"
  by (rule unat_minus_one) auto

lemma size_t_loop_measure:
  "i < len \<Longrightarrow> unat len - unat (i + 1 :: size_t) < unat len - unat i"
  by (simp add: unat_succ_lt word_less_nat_alt)

section \<open>The writer: telnet_write\<close>

text \<open>\<open>writer(session, data + start, n)\<close> passes the \<open>n\<close> bytes from index \<open>start\<close>.\<close>

definition span :: "byte list \<Rightarrow> size_t \<Rightarrow> size_t \<Rightarrow> byte list" where
  "span data start n = take (unat n) (drop (unat start) data)"

function telnet_write_loop ::
  "byte list \<Rightarrow> size_t \<Rightarrow> size_t \<Rightarrow> size_t \<Rightarrow> size_t \<Rightarrow> byte list list \<Rightarrow> byte list list"
where
  "telnet_write_loop data len i start new_length out =
     (if i < len then
        (let c = data ! unat i;
             new_length = new_length + 1
         in if c = TELNET_IAC
            then telnet_write_loop data len (i + 1) (i + 1) 0
                   (out @ [span data start new_length, [TELNET_IAC, TELNET_IAC]])
            else telnet_write_loop data len (i + 1) start new_length out)
      else out @ [span data start new_length])"
  by pat_completeness auto
termination
  by (relation "measure (\<lambda>(data, len, i, start, new_length, out). unat len - unat i)")
     (simp_all add: size_t_loop_measure)

declare telnet_write_loop.simps [simp del]

text \<open>
  \<open>telnet_write\<close> returns the list of writer invocations. A \<open>NULL\<close> session, data or
  writer, or a zero length, returns at once with no invocation.
\<close>

definition telnet_write ::
  "telnet_session option \<Rightarrow> byte list option \<Rightarrow> size_t \<Rightarrow> bool \<Rightarrow> byte list list"
where
  "telnet_write session data len writer =
     (case data of
        None \<Rightarrow> []
      | Some d \<Rightarrow>
          if session = None \<or> len = 0 \<or> \<not> writer then []
          else telnet_write_loop d len 0 0 0 [])"

text \<open>What the loop of \<open>telnet_write\<close> delivers for one byte of the data.\<close>

definition code_escape :: "byte \<Rightarrow> byte list" where
  "code_escape c = (if c = TELNET_IAC then [c, TELNET_IAC, TELNET_IAC] else [c])"

section \<open>Sessions and packets\<close>

definition default_packet :: telnet_packet where
  "default_packet =
     \<lparr>command = TELNET_NOP, option = TELNET_OPTION_BINARY,
      subnegotiation_type = TELNET_SE_IS, subnegotiation_length = 0,
      subnegotiation_data = replicate 64 0\<rparr>"

text \<open>\<open>telnet_init_packet\<close> assigns every field; a \<open>NULL\<close> packet is left alone.\<close>

definition telnet_init_packet :: "telnet_packet option \<Rightarrow> telnet_packet option" where
  "telnet_init_packet pkt =
     (case pkt of
        None \<Rightarrow> None
      | Some p \<Rightarrow>
          Some (p\<lparr>command := TELNET_NOP, option := TELNET_OPTION_BINARY,
                  subnegotiation_type := TELNET_SE_IS, subnegotiation_length := 0,
                  subnegotiation_data := replicate 64 0\<rparr>))"

definition telnet_init :: "telnet_session option \<Rightarrow> telnet_session option" where
  "telnet_init session =
     (case session of
        None \<Rightarrow> None
      | Some s \<Rightarrow>
          Some (s\<lparr>state := TELNET_STATE_READY,
                  packet := (case telnet_init_packet (Some (packet s)) of
                               Some p \<Rightarrow> p | None \<Rightarrow> packet s),
                  options := 0,
                  subnegotiation_options := (\<lambda>_. None),
                  user_data := None\<rparr>))"

text \<open>The session every call of \<open>telnet_init\<close> on a session produces.\<close>

definition initial_session :: telnet_session where
  "initial_session =
     \<lparr>state = TELNET_STATE_READY, packet = default_packet, options = 0,
      subnegotiation_options = (\<lambda>_. None), user_data = None\<rparr>"

subsection \<open>The option registry\<close>

text \<open>The macros \<open>_bit_get\<close>, \<open>_bit_set\<close> and \<open>_bit_clear\<close> on \<open>1ULL << index\<close>.\<close>

definition bit_get :: "64 word \<Rightarrow> byte \<Rightarrow> fault + bool" where
  "bit_get bits index =
     (if unat index < 64 then Inr ((bits AND push_bit (unat index) 1) \<noteq> 0)
      else Inl Shift_Out_Of_Range)"

definition bit_set :: "64 word \<Rightarrow> byte \<Rightarrow> fault + 64 word" where
  "bit_set bits index =
     (if unat index < 64 then Inr (bits OR push_bit (unat index) 1)
      else Inl Shift_Out_Of_Range)"

definition bit_clear :: "64 word \<Rightarrow> byte \<Rightarrow> fault + 64 word" where
  "bit_clear bits index =
     (if unat index < 64 then Inr (bits AND NOT (push_bit (unat index) 1))
      else Inl Shift_Out_Of_Range)"

definition telnet_get_option :: "telnet_session option \<Rightarrow> byte \<Rightarrow> fault + bool" where
  "telnet_get_option session opt =
     (case session of
        None \<Rightarrow> Inr False
      | Some s \<Rightarrow> bit_get (options s) opt)"

definition telnet_set_option ::
  "telnet_session option \<Rightarrow> byte \<Rightarrow> bool \<Rightarrow> fault + telnet_session option"
where
  "telnet_set_option session opt val =
     (case session of
        None \<Rightarrow> Inr None
      | Some s \<Rightarrow>
          (case (if val then bit_set (options s) opt else bit_clear (options s) opt) of
             Inl f \<Rightarrow> Inl f
           | Inr bits \<Rightarrow> Inr (Some (s\<lparr>options := bits\<rparr>))))"

text \<open>
  \<open>telnet_supported_options(session, option, ...)\<close>: the first option and the rest of the
  variadic list. The loop runs \<open>opt\<close> from the first option up to \<open>TELNET_OPTION_MAX\<close>,
  reads the bit of \<open>opt\<close> into a local and does nothing with it; \<open>va_start\<close> and
  \<open>va_end\<close> bracket the loop and no \<open>va_arg\<close> reads the list.
\<close>

function supported_options_loop :: "telnet_session \<Rightarrow> byte \<Rightarrow> fault + telnet_session" where
  "supported_options_loop s opt =
     (if unat opt < TELNET_OPTION_MAX then
        (case bit_get (options s) opt of
           Inl f \<Rightarrow> Inl f
         | Inr supported \<Rightarrow> supported_options_loop s (opt + 1))
      else Inr s)"
  by pat_completeness auto
termination
  by (relation "measure (\<lambda>(s, opt). TELNET_OPTION_MAX - unat opt)")
     (simp_all add: TELNET_OPTION_MAX_def unat_word_ariths)

declare supported_options_loop.simps [simp del]

definition telnet_supported_options ::
  "telnet_session option \<Rightarrow> byte \<Rightarrow> byte list \<Rightarrow> fault + telnet_session option"
where
  "telnet_supported_options session opt args =
     (case session of
        None \<Rightarrow> Inr None
      | Some s \<Rightarrow>
          (case supported_options_loop s opt of
             Inl f \<Rightarrow> Inl f
           | Inr s' \<Rightarrow> Inr (Some s')))"

definition telnet_get_subnegotiation_option ::
  "telnet_session option \<Rightarrow> byte \<Rightarrow> fault + byte list option"
where
  "telnet_get_subnegotiation_option session opt =
     (case session of
        None \<Rightarrow> Inr None
      | Some s \<Rightarrow>
          if unat opt < TELNET_OPTION_MAX then Inr (subnegotiation_options s (unat opt))
          else Inl Array_Out_Of_Bounds)"

definition telnet_set_subnegotiation_option ::
  "telnet_session option \<Rightarrow> byte \<Rightarrow> byte list option \<Rightarrow> fault + telnet_session option"
where
  "telnet_set_subnegotiation_option session opt val =
     (case session of
        None \<Rightarrow> Inr None
      | Some s \<Rightarrow>
          if unat opt < TELNET_OPTION_MAX
          then Inr (Some (s\<lparr>subnegotiation_options := (subnegotiation_options s)(unat opt := val)\<rparr>))
          else Inl Array_Out_Of_Bounds)"

subsection \<open>Serialising a packet\<close>

text \<open>
  \<open>telnet_write_packet\<close> fills the local \<open>buffer[80]\<close> from index 0 and calls the writer
  once with what it filled. \<open>memcpy\<close> reads \<open>subnegotiation_length\<close> bytes of the
  64-byte array of the packet: beyond 64 it reads outside the array.
\<close>

definition telnet_write_packet ::
  "telnet_session option \<Rightarrow> telnet_packet option \<Rightarrow> bool \<Rightarrow> fault + byte list list"
where
  "telnet_write_packet session pkt writer =
     (case pkt of
        None \<Rightarrow> Inr []
      | Some p \<Rightarrow>
          if session = None \<or> \<not> writer then Inr []
          else
            (let buffer = [TELNET_IAC, command p] in
             if command p = TELNET_DO \<or> command p = TELNET_DONT
                \<or> command p = TELNET_WILL \<or> command p = TELNET_WONT
             then Inr [buffer @ [option p]]
             else if command p = TELNET_SB
             then
               (if 64 < unat (subnegotiation_length p) then Inl Array_Out_Of_Bounds
                else Inr [buffer @ [option p, subnegotiation_type p]
                          @ take (unat (subnegotiation_length p)) (subnegotiation_data p)
                          @ [TELNET_IAC, TELNET_SE]])
             else Inr [buffer]))"

subsection \<open>Dispatch of a completed packet\<close>

text \<open>
  \<open>strlen\<close> counts the bytes before the first zero byte, and reads past the object when
  there is none. \<open>memcpy\<close> overwrites the first \<open>n\<close> bytes of the destination.
\<close>

definition strlen :: "byte list \<Rightarrow> fault + size_t" where
  "strlen str =
     (if 0 \<in> set str then Inr (word_of_nat (length (takeWhile (\<lambda>b. b \<noteq> 0) str)))
      else Inl Unterminated_String)"

definition memcpy :: "byte list \<Rightarrow> byte list \<Rightarrow> nat \<Rightarrow> byte list" where
  "memcpy dst src n = take n src @ drop n dst"

text \<open>
  The \<open>switch\<close> of \<open>_handle_incomming_packet\<close> on the command of the received packet,
  after \<open>telnet_init_packet(&response_packet)\<close>. It returns the writer invocations.
\<close>

definition automatic_response ::
  "telnet_session \<Rightarrow> telnet_packet \<Rightarrow> bool \<Rightarrow> fault + byte list list"
where
  "automatic_response s pkt writer =
     (let response_packet = default_packet in
      if command pkt = TELNET_WILL then
        (case telnet_get_option (Some s) (option pkt) of
           Inl f \<Rightarrow> Inl f
         | Inr supported \<Rightarrow>
             telnet_write_packet (Some s)
               (Some (response_packet
                  \<lparr>command := (if supported then TELNET_DO else TELNET_DONT),
                   option := option pkt\<rparr>)) writer)
      else if command pkt = TELNET_WONT then
        telnet_write_packet (Some s)
          (Some (response_packet\<lparr>command := TELNET_DONT, option := option pkt\<rparr>)) writer
      else if command pkt = TELNET_DO then
        (case telnet_get_option (Some s) (option pkt) of
           Inl f \<Rightarrow> Inl f
         | Inr supported \<Rightarrow>
             telnet_write_packet (Some s)
               (Some (response_packet
                  \<lparr>command := (if supported then TELNET_WILL else TELNET_WONT),
                   option := option pkt\<rparr>)) writer)
      else if command pkt = TELNET_DONT then
        telnet_write_packet (Some s)
          (Some (response_packet\<lparr>command := TELNET_WONT, option := option pkt\<rparr>)) writer
      else if command pkt = TELNET_SB then
        (if subnegotiation_type pkt = TELNET_SE_SEND then
           (case telnet_get_subnegotiation_option (Some s) (option pkt) of
              Inl f \<Rightarrow> Inl f
            | Inr None \<Rightarrow> Inr []
            | Inr (Some subnegotiation_option) \<Rightarrow>
                (case strlen subnegotiation_option of
                   Inl f \<Rightarrow> Inl f
                 | Inr n \<Rightarrow>
                     if 64 < unat n then Inl Array_Out_Of_Bounds
                     else
                       telnet_write_packet (Some s)
                         (Some (response_packet
                            \<lparr>command := TELNET_SB,
                             option := option pkt,
                             subnegotiation_type := TELNET_SE_IS,
                             subnegotiation_length := n,
                             subnegotiation_data :=
                               memcpy (subnegotiation_data response_packet)
                                 subnegotiation_option (unat n)\<rparr>)) writer))
         else Inr [])
      else Inr [])"

text \<open>
  \<open>_handle_incomming_packet\<close> returns the events of the dispatch: the callback
  invocation, when a callback is given, and the writer invocations of the reply.
\<close>

definition handle_incomming_packet ::
  "telnet_session option \<Rightarrow> bool \<Rightarrow> telnet_packet_callback option \<Rightarrow> fault + event list"
where
  "handle_incomming_packet session writer callback =
     (case session of
        None \<Rightarrow> Inr []
      | Some s \<Rightarrow>
          (case callback of
             None \<Rightarrow>
               (case automatic_response s (packet s) writer of
                  Inl f \<Rightarrow> Inl f
                | Inr ws \<Rightarrow> Inr (map Writer_Invoked ws))
           | Some cb \<Rightarrow>
               if \<not> cb s (packet s) then Inr [Callback_Invoked (packet s)]
               else
                 (case automatic_response s (packet s) writer of
                    Inl f \<Rightarrow> Inl f
                  | Inr ws \<Rightarrow> Inr (Callback_Invoked (packet s) # map Writer_Invoked ws))))"

section \<open>The reader: telnet_read\<close>

text \<open>
  \<open>memmove(&data[dst], &data[src], n)\<close> on the buffer: the \<open>n\<close> bytes from \<open>src\<close> are
  read first and then stored from \<open>dst\<close> on, so overlapping ranges are copied correctly.
  The buffer is the caller's and holds at least \<open>length\<close> bytes; that is the caller's
  obligation, stated as a premise wherever a property depends on it.
\<close>

definition memmove :: "byte list \<Rightarrow> nat \<Rightarrow> nat \<Rightarrow> nat \<Rightarrow> byte list" where
  "memmove mem dst src n = take dst mem @ take n (drop src mem) @ drop (dst + n) mem"

definition delete_uint8_tacter :: "byte list \<Rightarrow> size_t \<Rightarrow> size_t \<Rightarrow> byte list \<times> size_t" where
  "delete_uint8_tacter data len index =
     (if len \<le> index then (data, len)
      else (memmove data (unat index) (unat (index + 1)) (unat (len - index - 1)), len - 1))"

text \<open>The macro \<open>_TELNET_DELETE_CHARACTER\<close>: delete the byte at \<open>i\<close>, then \<open>i--\<close>.\<close>

definition TELNET_DELETE_CHARACTER ::
  "byte list \<Rightarrow> size_t \<Rightarrow> size_t \<Rightarrow> byte list \<times> size_t \<times> size_t"
where
  "TELNET_DELETE_CHARACTER data new_length i =
     (let (data, new_length) = delete_uint8_tacter data new_length i
      in (data, new_length, i - 1))"

text \<open>
  \<open>subnegotiation_data[subnegotiation_length++] = c\<close> on the packet of the session: a
  store at an index of 64 or more is outside the array.
\<close>

definition append_subnegotiation :: "telnet_session \<Rightarrow> byte \<Rightarrow> fault + telnet_session" where
  "append_subnegotiation s c =
     (let p = packet s; n = subnegotiation_length p in
      if unat n < 64
      then Inr (s\<lparr>packet := p\<lparr>subnegotiation_data := (subnegotiation_data p)[unat n := c],
                                subnegotiation_length := n + 1\<rparr>\<rparr>)
      else Inl Array_Out_Of_Bounds)"

text \<open>
  One iteration of the \<open>for\<close> loop of \<open>telnet_read\<close>, without the \<open>i++\<close> of the loop
  header: the \<open>switch\<close> on the parse state. It returns the session, the buffer,
  \<open>new_length\<close>, \<open>i\<close> and the events of the iteration.
\<close>

definition telnet_read_step ::
  "telnet_packet_callback option \<Rightarrow> bool \<Rightarrow> telnet_session \<Rightarrow> byte list \<Rightarrow> size_t \<Rightarrow> size_t
   \<Rightarrow> fault + (telnet_session \<times> byte list \<times> size_t \<times> size_t \<times> event list)"
where
  "telnet_read_step callback writer s data new_length i =
     (let c = data ! unat i in
      case state s of
        TELNET_STATE_READY \<Rightarrow>
          if c = TELNET_IAC then
            (let (data, new_length, i) = TELNET_DELETE_CHARACTER data new_length i
             in Inr (s\<lparr>state := TELNET_STATE_IN_COMMAND\<rparr>, data, new_length, i, []))
          else Inr (s, data, new_length, i, [])
      | TELNET_STATE_IN_COMMAND \<Rightarrow>
          (let s = s\<lparr>packet := (packet s)\<lparr>command := c\<rparr>\<rparr> in
           if c = TELNET_IAC
           then Inr (s\<lparr>state := TELNET_STATE_READY\<rparr>, data, new_length, i, [])
           else
             (let (data, new_length) = delete_uint8_tacter data new_length i;
                  i = i - 1
              in if c = TELNET_DO \<or> c = TELNET_DONT \<or> c = TELNET_WILL \<or> c = TELNET_WONT
                 then Inr (s\<lparr>state := TELNET_STATE_IN_OPTION\<rparr>, data, new_length, i, [])
                 else if c = TELNET_SB
                 then Inr (s\<lparr>state := TELNET_STATE_IN_SUBNEGOTIATION_TYPE\<rparr>,
                           data, new_length, i, [])
                 else
                   (case handle_incomming_packet (Some s) writer callback of
                      Inl f \<Rightarrow> Inl f
                    | Inr ev \<Rightarrow>
                        Inr (s\<lparr>state := TELNET_STATE_READY\<rparr>, data, new_length, i, ev))))
      | TELNET_STATE_IN_OPTION \<Rightarrow>
          (let (data, new_length, i) = TELNET_DELETE_CHARACTER data new_length i;
               s = s\<lparr>packet := (packet s)\<lparr>option := c\<rparr>\<rparr>
           in case handle_incomming_packet (Some s) writer callback of
                Inl f \<Rightarrow> Inl f
              | Inr ev \<Rightarrow> Inr (s\<lparr>state := TELNET_STATE_READY\<rparr>, data, new_length, i, ev))
      | TELNET_STATE_IN_SUBNEGOTIATION_TYPE \<Rightarrow>
          (let (data, new_length, i) = TELNET_DELETE_CHARACTER data new_length i;
               s = s\<lparr>packet := (packet s)\<lparr>subnegotiation_type := c\<rparr>\<rparr>
           in Inr (s\<lparr>state := TELNET_STATE_IN_SUBNEGOTIATION_VALUE\<rparr>,
                   data, new_length, i, []))
      | TELNET_STATE_IN_SUBNEGOTIATION_VALUE \<Rightarrow>
          (let (data, new_length, i) = TELNET_DELETE_CHARACTER data new_length i
           in if c = TELNET_IAC
              then Inr (s\<lparr>state := TELNET_STATE_IN_SB_IAC\<rparr>, data, new_length, i, [])
              else
                (case append_subnegotiation s c of
                   Inl f \<Rightarrow> Inl f
                 | Inr s \<Rightarrow> Inr (s, data, new_length, i, [])))
      | TELNET_STATE_IN_SB_IAC \<Rightarrow>
          if c = TELNET_IAC then
            (case append_subnegotiation s TELNET_IAC of
               Inl f \<Rightarrow> Inl f
             | Inr s \<Rightarrow>
                 (let s = s\<lparr>state := TELNET_STATE_IN_SUBNEGOTIATION_VALUE\<rparr>;
                      (data, new_length, i) = TELNET_DELETE_CHARACTER data new_length i
                  in Inr (s, data, new_length, i, [])))
          else if c = TELNET_SE then
            (case handle_incomming_packet (Some s) writer callback of
               Inl f \<Rightarrow> Inl f
             | Inr ev \<Rightarrow>
                 (let s = s\<lparr>state := TELNET_STATE_READY\<rparr>;
                      (data, new_length, i) = TELNET_DELETE_CHARACTER data new_length i
                  in Inr (s, data, new_length, i, ev)))
          else
            (case handle_incomming_packet (Some s) writer callback of
               Inl f \<Rightarrow> Inl f
             | Inr ev \<Rightarrow>
                 (let s = s\<lparr>packet := (case telnet_init_packet (Some (packet s)) of
                                          Some p \<Rightarrow> p | None \<Rightarrow> packet s)\<rparr>
                  in Inr (s\<lparr>state := TELNET_STATE_IN_COMMAND\<rparr>, data, new_length, i, ev))))"

text \<open>
  Every iteration either keeps \<open>new_length\<close> and \<open>i\<close> or decrements both, so the loop
  \<open>for (i = 0; i < new_length; i++)\<close> terminates.
\<close>

lemma telnet_read_step_index:
  assumes "i < new_length"
    and "telnet_read_step cb w s data new_length i = Inr (s', data', nl', i', ev)"
  shows "(nl' = new_length \<and> i' = i) \<or> (nl' = new_length - 1 \<and> i' = i - 1)"
  using assms
  unfolding telnet_read_step_def TELNET_DELETE_CHARACTER_def delete_uint8_tacter_def Let_def
  by (auto split: telnet_parse_state.splits if_splits sum.splits prod.splits)

lemma telnet_read_step_measure:
  assumes "i < new_length"
    and "telnet_read_step cb w s data new_length i = Inr (s', data', nl', i', ev)"
  shows "unat nl' - unat (i' + 1) < unat new_length - unat i"
proof -
  from assms(1) have lt: "unat i < unat new_length" by (simp add: word_less_nat_alt)
  from telnet_read_step_index [OF assms]
  show ?thesis
  proof
    assume "nl' = new_length \<and> i' = i"
    then show ?thesis using size_t_loop_measure [OF assms(1)] by simp
  next
    assume "nl' = new_length - 1 \<and> i' = i - 1"
    then show ?thesis using lt unat_pred_gt [OF assms(1)] by simp
  qed
qed

function telnet_read_loop ::
  "telnet_packet_callback option \<Rightarrow> bool \<Rightarrow> telnet_session \<Rightarrow> byte list \<Rightarrow> size_t \<Rightarrow> size_t
   \<Rightarrow> event list \<Rightarrow> fault + (telnet_session \<times> byte list \<times> size_t \<times> event list)"
where
  "telnet_read_loop callback writer s data new_length i events =
     (if i < new_length then
        (case telnet_read_step callback writer s data new_length i of
           Inl f \<Rightarrow> Inl f
         | Inr (s', data', new_length', i', ev) \<Rightarrow>
             telnet_read_loop callback writer s' data' new_length' (i' + 1) (events @ ev))
      else Inr (s, data, new_length, events))"
  by pat_completeness auto
termination
  by (relation "measure (\<lambda>(callback, writer, s, data, new_length, i, events).
        unat new_length - unat i)")
     (auto intro: telnet_read_step_measure)

declare telnet_read_loop.simps [simp del]

text \<open>
  \<open>telnet_read\<close> returns the new length, the buffer and the session as the call leaves
  them, and the events of the call in order.
\<close>

definition telnet_read ::
  "telnet_session option \<Rightarrow> byte list option \<Rightarrow> size_t \<Rightarrow> telnet_packet_callback option \<Rightarrow> bool
   \<Rightarrow> fault + (size_t \<times> byte list option \<times> telnet_session option \<times> event list)"
where
  "telnet_read session data len callback writer =
     (case data of
        None \<Rightarrow> Inr (0, data, session, [])
      | Some d \<Rightarrow>
          if len = 0 then Inr (0, data, session, [])
          else
            (case session of
               None \<Rightarrow> Inr (len, data, session, [])
             | Some s \<Rightarrow>
                 (case telnet_read_loop callback writer s d len 0 [] of
                    Inl f \<Rightarrow> Inl f
                  | Inr (s', d', new_length, events) \<Rightarrow>
                      Inr (new_length, Some d', Some s', events))))"

section \<open>The reader as a transducer of the byte stream\<close>

text \<open>
  What one iteration does with the byte \<open>c\<close> it examines, read off the loop body
  itself by running it on the one-byte buffer \<open>[c]\<close>: the session after the
  iteration, whether the byte was deleted, and the events.
\<close>

definition consume_byte ::
  "telnet_packet_callback option \<Rightarrow> bool \<Rightarrow> telnet_session \<Rightarrow> byte
   \<Rightarrow> fault + (telnet_session \<times> bool \<times> event list)"
where
  "consume_byte callback writer s c =
     (case telnet_read_step callback writer s [c] 1 0 of
        Inl f \<Rightarrow> Inl f
      | Inr (s', data', new_length', i', ev) \<Rightarrow> Inr (s', new_length' = 0, ev))"

text \<open>
  The bytes of the buffer consumed one after another: the session at the end, the bytes
  that were kept, and all events.
\<close>

fun stream_run ::
  "telnet_packet_callback option \<Rightarrow> bool \<Rightarrow> telnet_session \<Rightarrow> byte list
   \<Rightarrow> fault + (telnet_session \<times> byte list \<times> event list)"
where
  "stream_run callback writer s [] = Inr (s, [], [])"
| "stream_run callback writer s (c # cs) =
     (case consume_byte callback writer s c of
        Inl f \<Rightarrow> Inl f
      | Inr (s', del, ev) \<Rightarrow>
          (case stream_run callback writer s' cs of
             Inl f \<Rightarrow> Inl f
           | Inr (s'', kept, evs) \<Rightarrow>
               Inr (s'', (if del then kept else c # kept), ev @ evs)))"

text \<open>
  The outcome of the in-place loop agrees with the outcome on the stream: started at
  index \<open>i\<close> with the events so far, the loop faults exactly when the stream does, and
  otherwise ends in the same session with the same events, having left in the buffer
  the first \<open>i\<close> bytes followed by the kept ones.
\<close>

definition loop_refines ::
  "fault + (telnet_session \<times> byte list \<times> size_t \<times> event list)
   \<Rightarrow> fault + (telnet_session \<times> byte list \<times> event list)
   \<Rightarrow> byte list \<Rightarrow> nat \<Rightarrow> event list \<Rightarrow> bool"
where
  "loop_refines concrete abstract data i events =
     (case abstract of
        Inl f \<Rightarrow> concrete = Inl f
      | Inr (s', kept, evs) \<Rightarrow>
          (case concrete of
             Inl f \<Rightarrow> False
           | Inr (s'', data', nl', events') \<Rightarrow>
               s'' = s' \<and> events' = events @ evs
               \<and> unat nl' = i + length kept
               \<and> take (unat nl') data' = take i data @ kept
               \<and> length data' = length data))"

section \<open>The state table of the specification\<close>

text \<open>
  The table of states and transitions as the specification gives it: for a state and a
  byte, whether the byte is a control byte, which is deleted, and the next state. In the
  recognized control sequences \<open>IAC cmd\<close>, \<open>IAC DO|DONT|WILL|WONT option\<close> and
  \<open>IAC SB ... IAC SE\<close> every byte is a control byte; of an escaped \<open>IAC IAC\<close> in the
  data the first byte is one and the second is the payload byte \<open>0xFF\<close>.

  One row of the specification is left out, and the table has no entry there: in
  \<open>IN_SB_IAC\<close>, a byte other than \<open>IAC\<close> and \<open>SE\<close> (a new command begun before the
  subnegotiation was terminated, a protocol violation). What is payload in such a
  sequence is not said here.
\<close>

fun spec_transition ::
  "telnet_parse_state \<Rightarrow> byte \<Rightarrow> (bool \<times> telnet_parse_state) option"
where
  "spec_transition TELNET_STATE_READY c =
     (if c = TELNET_IAC then Some (True, TELNET_STATE_IN_COMMAND)
      else Some (False, TELNET_STATE_READY))"
| "spec_transition TELNET_STATE_IN_COMMAND c =
     (if c = TELNET_IAC then Some (False, TELNET_STATE_READY)
      else if c = TELNET_DO \<or> c = TELNET_DONT \<or> c = TELNET_WILL \<or> c = TELNET_WONT
      then Some (True, TELNET_STATE_IN_OPTION)
      else if c = TELNET_SB then Some (True, TELNET_STATE_IN_SUBNEGOTIATION_TYPE)
      else Some (True, TELNET_STATE_READY))"
| "spec_transition TELNET_STATE_IN_OPTION c = Some (True, TELNET_STATE_READY)"
| "spec_transition TELNET_STATE_IN_SUBNEGOTIATION_TYPE c =
     Some (True, TELNET_STATE_IN_SUBNEGOTIATION_VALUE)"
| "spec_transition TELNET_STATE_IN_SUBNEGOTIATION_VALUE c =
     (if c = TELNET_IAC then Some (True, TELNET_STATE_IN_SB_IAC)
      else Some (True, TELNET_STATE_IN_SUBNEGOTIATION_VALUE))"
| "spec_transition TELNET_STATE_IN_SB_IAC c =
     (if c = TELNET_IAC then Some (True, TELNET_STATE_IN_SUBNEGOTIATION_VALUE)
      else if c = TELNET_SE then Some (True, TELNET_STATE_READY)
      else None)"

text \<open>
  The application payload of a byte sequence read from a parse state: the sequence with
  all control bytes removed, in the original order. The control bytes consumed are
  counted. Both are \<open>None\<close> for a sequence that runs into the row left out.
\<close>

fun spec_payload :: "telnet_parse_state \<Rightarrow> byte list \<Rightarrow> byte list option" where
  "spec_payload st [] = Some []"
| "spec_payload st (c # cs) =
     (case spec_transition st c of
        None \<Rightarrow> None
      | Some (control, st') \<Rightarrow>
          (case spec_payload st' cs of
             None \<Rightarrow> None
           | Some payload \<Rightarrow> Some (if control then payload else c # payload)))"

fun spec_control_bytes :: "telnet_parse_state \<Rightarrow> byte list \<Rightarrow> nat option" where
  "spec_control_bytes st [] = Some 0"
| "spec_control_bytes st (c # cs) =
     (case spec_transition st c of
        None \<Rightarrow> None
      | Some (control, st') \<Rightarrow>
          (case spec_control_bytes st' cs of
             None \<Rightarrow> None
           | Some consumed \<Rightarrow> Some (if control then Suc consumed else consumed)))"

section \<open>The negotiation table of the specification\<close>

text \<open>The writer invocations among the events of a call, in order.\<close>

fun writer_invocations :: "event list \<Rightarrow> byte list list" where
  "writer_invocations [] = []"
| "writer_invocations (Writer_Invoked bytes # es) = bytes # writer_invocations es"
| "writer_invocations (Callback_Invoked p # es) = writer_invocations es"

text \<open>
  The automatic reply is not suppressed: no callback is given, or the callback answers
  true on the session and its packet.
\<close>

definition not_suppressed :: "telnet_packet_callback option \<Rightarrow> telnet_session \<Rightarrow> bool" where
  "not_suppressed callback s =
     (case callback of None \<Rightarrow> True | Some cb \<Rightarrow> cb s (packet s))"

text \<open>
  The reply the table of the specification gives for a received packet, as the bytes of
  each write: \<open>WILL\<close> is answered by \<open>DO\<close> when the bit of the option is set in the
  bitset and by \<open>DONT\<close> otherwise, \<open>WONT\<close> by \<open>DONT\<close>, \<open>DO\<close> by \<open>WILL\<close> or
  \<open>WONT\<close>, \<open>DONT\<close> by \<open>WONT\<close>, \<open>SB option SEND\<close> by \<open>SB option IS\<close> with the
  registered reply when there is one, and nothing else is answered.
\<close>

definition spec_reply :: "telnet_session \<Rightarrow> telnet_packet \<Rightarrow> byte list list" where
  "spec_reply s pkt =
     (if command pkt = TELNET_WILL then
        [[TELNET_IAC,
          (if bit (options s) (unat (option pkt)) then TELNET_DO else TELNET_DONT),
          option pkt]]
      else if command pkt = TELNET_WONT then [[TELNET_IAC, TELNET_DONT, option pkt]]
      else if command pkt = TELNET_DO then
        [[TELNET_IAC,
          (if bit (options s) (unat (option pkt)) then TELNET_WILL else TELNET_WONT),
          option pkt]]
      else if command pkt = TELNET_DONT then [[TELNET_IAC, TELNET_WONT, option pkt]]
      else if command pkt = TELNET_SB \<and> subnegotiation_type pkt = TELNET_SE_SEND then
        (case subnegotiation_options s (unat (option pkt)) of
           None \<Rightarrow> []
         | Some str \<Rightarrow>
             [[TELNET_IAC, TELNET_SB, option pkt, TELNET_SE_IS]
              @ takeWhile (\<lambda>b. b \<noteq> 0) str
              @ [TELNET_IAC, TELNET_SE]])
      else [])"

text \<open>
  The packets on which the code has a defined reply: an option below 64 where the bitset
  is consulted; for \<open>SB option SEND\<close> an option below 50 and, when a reply is
  registered, a zero-terminated reply of at most 64 bytes. A reply holding the byte
  \<open>0xFF\<close> is left out here: how the writer treats it is the matter of C8.
\<close>

definition reply_defined :: "telnet_session \<Rightarrow> telnet_packet \<Rightarrow> bool" where
  "reply_defined s pkt =
     (if command pkt = TELNET_WILL \<or> command pkt = TELNET_DO then unat (option pkt) < 64
      else if command pkt = TELNET_SB \<and> subnegotiation_type pkt = TELNET_SE_SEND
      then unat (option pkt) < TELNET_OPTION_MAX
           \<and> (case subnegotiation_options s (unat (option pkt)) of
                 None \<Rightarrow> True
               | Some str \<Rightarrow>
                   0 \<in> set str
                   \<and> length (takeWhile (\<lambda>b. b \<noteq> 0) str) \<le> 64
                   \<and> TELNET_IAC \<notin> set (takeWhile (\<lambda>b. b \<noteq> 0) str))
      else True)"

section \<open>Reading a stream in chunks\<close>

text \<open>
  What a caller sees of one \<open>telnet_read\<close> over a buffer holding exactly the given
  bytes: the session afterwards, the payload retained (the first returned-length bytes
  of the buffer) and the events.
\<close>

definition read_view ::
  "telnet_session option \<Rightarrow> byte list \<Rightarrow> telnet_packet_callback option \<Rightarrow> bool
   \<Rightarrow> fault + (telnet_session option \<times> byte list \<times> event list)"
where
  "read_view session bytes callback writer =
     (case telnet_read session (Some bytes) (word_of_nat (length bytes)) callback writer of
        Inl f \<Rightarrow> Inl f
      | Inr (new_length, buffer, session', events) \<Rightarrow>
          Inr (session',
               (case buffer of None \<Rightarrow> [] | Some d \<Rightarrow> take (unat new_length) d),
               events))"

text \<open>
  One read and then another on the session the first one left: the payloads and the
  events are concatenated, and a fault of either is the fault of both.
\<close>

definition read_then ::
  "fault + (telnet_session option \<times> byte list \<times> event list)
   \<Rightarrow> (telnet_session option \<Rightarrow> fault + (telnet_session option \<times> byte list \<times> event list))
   \<Rightarrow> fault + (telnet_session option \<times> byte list \<times> event list)"
where
  "read_then first second =
     (case first of
        Inl f \<Rightarrow> Inl f
      | Inr (session1, kept1, events1) \<Rightarrow>
          (case second session1 of
             Inl f \<Rightarrow> Inl f
           | Inr (session2, kept2, events2) \<Rightarrow>
               Inr (session2, kept1 @ kept2, events1 @ events2)))"

section \<open>Properties\<close>

lemma telnet_init_packet_default: "telnet_init_packet (Some p) = Some default_packet"
  by (simp add: telnet_init_packet_def default_packet_def)

lemma telnet_init_initial: "telnet_init (Some s) = Some initial_session"
  by (simp add: telnet_init_def initial_session_def telnet_init_packet_default)

subsection \<open>The loop and the stream\<close>

lemma delete_one [simp]: "snd (delete_uint8_tacter [c] 1 0) = 0"
  by (simp add: delete_uint8_tacter_def)

lemma delete_lt: "i < nl \<Longrightarrow> delete_uint8_tacter data nl i =
   (memmove data (unat i) (unat (i + 1)) (unat (nl - i - 1)), nl - 1)"
  by (simp add: delete_uint8_tacter_def)

lemma telnet_read_step_consume:
  assumes "i < nl"
  shows "telnet_read_step cb w s data nl i =
    (case consume_byte cb w s (data ! unat i) of
       Inl f \<Rightarrow> Inl f
     | Inr (s', del, ev) \<Rightarrow>
         if del
         then Inr (s', memmove data (unat i) (unat (i + 1)) (unat (nl - i - 1)), nl - 1, i - 1, ev)
         else Inr (s', data, nl, i, ev))"
proof (cases "state s")
  case TELNET_STATE_READY
  then show ?thesis using assms
    by (simp add: consume_byte_def telnet_read_step_def TELNET_DELETE_CHARACTER_def
        delete_lt Let_def split: prod.split)
next
  case TELNET_STATE_IN_COMMAND
  then show ?thesis using assms
    by (simp add: consume_byte_def telnet_read_step_def TELNET_DELETE_CHARACTER_def
        delete_lt Let_def split: prod.split sum.split)
next
  case TELNET_STATE_IN_OPTION
  then show ?thesis using assms
    by (simp add: consume_byte_def telnet_read_step_def TELNET_DELETE_CHARACTER_def
        delete_lt Let_def split: prod.split sum.split)
next
  case TELNET_STATE_IN_SUBNEGOTIATION_TYPE
  then show ?thesis using assms
    by (simp add: consume_byte_def telnet_read_step_def TELNET_DELETE_CHARACTER_def
        delete_lt Let_def split: prod.split sum.split)
next
  case TELNET_STATE_IN_SUBNEGOTIATION_VALUE
  then show ?thesis using assms
    by (simp add: consume_byte_def telnet_read_step_def TELNET_DELETE_CHARACTER_def
        delete_lt Let_def split: prod.split sum.split)
next
  case TELNET_STATE_IN_SB_IAC
  then show ?thesis using assms
    by (simp add: consume_byte_def telnet_read_step_def TELNET_DELETE_CHARACTER_def
        delete_lt Let_def split: prod.split sum.split)
qed

lemma memmove_length:
  "i < nl \<Longrightarrow> nl \<le> length data \<Longrightarrow> length (memmove data i (Suc i) (nl - Suc i)) = length data"
  by (simp add: memmove_def)

lemma memmove_take:
  "i < nl \<Longrightarrow> nl \<le> length data \<Longrightarrow> take i (memmove data i (Suc i) (nl - Suc i)) = take i data"
  by (simp add: memmove_def)

lemma memmove_drop_take:
  "i < nl \<Longrightarrow> nl \<le> length data \<Longrightarrow>
   drop i (take (nl - Suc 0) (memmove data i (Suc i) (nl - Suc i))) = drop (Suc i) (take nl data)"
  by (simp add: memmove_def drop_take min_def)

lemma loop_refines_keep:
  assumes "loop_refines C A data (Suc i) (events @ ev)" and "i < length data"
  shows "loop_refines C
          (case A of Inl f \<Rightarrow> Inl f
           | Inr (s'', kept, evs) \<Rightarrow> Inr (s'', data ! i # kept, ev @ evs)) data i events"
proof (cases A)
  case (Inl f)
  with assms show ?thesis by (simp add: loop_refines_def)
next
  case (Inr r)
  obtain s'' kept evs where r: "r = (s'', kept, evs)" by (cases r)
  show ?thesis
  proof (cases C)
    case (Inl f)
    with assms Inr r show ?thesis by (simp add: loop_refines_def)
  next
    case Cr: (Inr q)
    obtain t d n es where q: "q = (t, d, n, es)" by (cases q)
    from assms Inr r Cr q show ?thesis
      by (auto simp: loop_refines_def take_Suc_conv_app_nth)
  qed
qed

lemma loop_refines_delete:
  assumes "loop_refines C A d i (events @ ev)"
    and "take i d = take i data" and "length d = length data"
  shows "loop_refines C
          (case A of Inl f \<Rightarrow> Inl f
           | Inr (s'', kept, evs) \<Rightarrow> Inr (s'', kept, ev @ evs)) data i events"
proof (cases A)
  case (Inl f)
  with assms show ?thesis by (simp add: loop_refines_def)
next
  case (Inr r)
  obtain s'' kept evs where r: "r = (s'', kept, evs)" by (cases r)
  show ?thesis
  proof (cases C)
    case (Inl f)
    with assms Inr r show ?thesis by (simp add: loop_refines_def)
  next
    case Cr: (Inr q)
    obtain t d' n es where q: "q = (t, d', n, es)" by (cases q)
    from assms Inr r Cr q show ?thesis
      by (auto simp: loop_refines_def)
  qed
qed

lemma telnet_read_loop_refines:
  "unat i \<le> unat nl \<Longrightarrow> unat nl \<le> length data \<Longrightarrow> k = unat nl - unat i \<Longrightarrow>
   loop_refines (telnet_read_loop cb w s data nl i events)
     (stream_run cb w s (drop (unat i) (take (unat nl) data))) data (unat i) events"
proof (induction k arbitrary: s data nl i events)
  case 0
  then have "i = nl" by (simp add: word_unat_eq_iff)
  then show ?case
    by (simp add: telnet_read_loop.simps loop_refines_def)
next
  case (Suc k)
  then have lt: "i < nl" and ltn: "unat i < unat nl" by (simp_all add: word_less_nat_alt)
  have i1: "unat (i + 1) = Suc (unat i)" by (rule unat_succ_lt [OF lt])
  have n1: "unat (nl - 1) = unat nl - Suc 0" using unat_pred_gt [OF lt] by simp
  have "unat (nl - i) = unat nl - unat i"
    using lt by (simp add: unat_sub word_le_nat_alt word_less_nat_alt)
  moreover have "nl - i \<noteq> 0" using lt by simp
  ultimately have nli: "unat (nl - i - 1) = unat nl - Suc (unat i)"
    using unat_minus_one [of "nl - i"] by simp
  let ?c = "data ! unat i"
  let ?rest = "drop (Suc (unat i)) (take (unat nl) data)"
  have dr: "drop (unat i) (take (unat nl) data) = ?c # ?rest"
    using ltn Suc.prems(2) Cons_nth_drop_Suc [of "unat i" "take (unat nl) data"] by simp
  show ?case
  proof (cases "consume_byte cb w s ?c")
    case (Inl f)
    then show ?thesis
      using lt by (simp add: telnet_read_loop.simps [of cb w s data nl i]
          telnet_read_step_consume dr loop_refines_def)
  next
    case (Inr r)
    obtain s' del ev where r: "r = (s', del, ev)" by (cases r)
    show ?thesis
    proof (cases del)
      case False
      have "loop_refines (telnet_read_loop cb w s' data nl (i + 1) (events @ ev))
         (stream_run cb w s' (drop (unat (i + 1)) (take (unat nl) data))) data (unat (i + 1)) (events @ ev)"
        using Suc.prems ltn by (intro Suc.IH) (simp_all add: i1)
      then have IH: "loop_refines (telnet_read_loop cb w s' data nl (i + 1) (events @ ev))
         (stream_run cb w s' ?rest) data (Suc (unat i)) (events @ ev)"
        by (simp only: i1)
      have step: "telnet_read_loop cb w s data nl i events
           = telnet_read_loop cb w s' data nl (i + 1) (events @ ev)"
        using lt Inr r False
        by (simp add: telnet_read_loop.simps [of cb w s data nl i] telnet_read_step_consume)
      have abs: "stream_run cb w s (?c # ?rest) =
          (case stream_run cb w s' ?rest of Inl f \<Rightarrow> Inl f
           | Inr (s'', kept, evs) \<Rightarrow> Inr (s'', ?c # kept, ev @ evs))"
        using Inr r False by (simp split: sum.split)
      from ltn Suc.prems(2) have "unat i < length data" by simp
      from loop_refines_keep [OF IH this] show ?thesis
        by (simp only: step dr abs)
    next
      case True
      let ?d = "memmove data (unat i) (Suc (unat i)) (unat nl - Suc (unat i))"
      have dlen: "length ?d = length data"
        using ltn Suc.prems(2) by (simp add: memmove_length)
      have dtake: "take (unat i) ?d = take (unat i) data"
        using ltn Suc.prems(2) by (simp add: memmove_take)
      have ddrop: "drop (unat i) (take (unat nl - Suc 0) ?d) = ?rest"
        using ltn Suc.prems(2) by (simp add: memmove_drop_take)
      have "loop_refines (telnet_read_loop cb w s' ?d (nl - 1) i (events @ ev))
         (stream_run cb w s' (drop (unat i) (take (unat (nl - 1)) ?d))) ?d (unat i) (events @ ev)"
        using Suc.prems ltn by (intro Suc.IH) (simp_all add: n1 dlen)
      then have IH: "loop_refines (telnet_read_loop cb w s' ?d (nl - 1) i (events @ ev))
         (stream_run cb w s' ?rest) ?d (unat i) (events @ ev)"
        by (simp only: n1 ddrop)
      have step: "telnet_read_loop cb w s data nl i events
           = telnet_read_loop cb w s' ?d (nl - 1) i (events @ ev)"
        using lt Inr r True
        by (simp add: telnet_read_loop.simps [of cb w s data nl i] telnet_read_step_consume i1 nli)
      have abs: "stream_run cb w s (?c # ?rest) =
          (case stream_run cb w s' ?rest of Inl f \<Rightarrow> Inl f
           | Inr (s'', kept, evs) \<Rightarrow> Inr (s'', kept, ev @ evs))"
        using Inr r True by (simp split: sum.split)
      from loop_refines_delete [OF IH dtake dlen] show ?thesis
        by (simp only: step dr abs)
    qed
  qed
qed

subsection \<open>The loop body follows the state table\<close>

lemma append_subnegotiation_state:
  "append_subnegotiation s c = Inr s' \<Longrightarrow> state s' = state s"
  by (auto simp: append_subnegotiation_def Let_def split: if_splits)

lemma consume_byte_spec_case:
  "(case consume_byte cb w s c of
      Inl f \<Rightarrow> True
    | Inr (s', del, ev) \<Rightarrow>
        (case spec_transition (state s) c of
           None \<Rightarrow> True
         | Some t \<Rightarrow> t = (del, state s')))"
proof (cases "state s")
  case TELNET_STATE_READY
  then show ?thesis
    by (simp add: consume_byte_def telnet_read_step_def TELNET_DELETE_CHARACTER_def
        delete_uint8_tacter_def Let_def)
next
  case TELNET_STATE_IN_COMMAND
  then show ?thesis
    by (simp add: consume_byte_def telnet_read_step_def TELNET_DELETE_CHARACTER_def
        delete_uint8_tacter_def Let_def split: sum.split)
next
  case TELNET_STATE_IN_OPTION
  then show ?thesis
    by (simp add: consume_byte_def telnet_read_step_def TELNET_DELETE_CHARACTER_def
        delete_uint8_tacter_def Let_def split: sum.split)
next
  case TELNET_STATE_IN_SUBNEGOTIATION_TYPE
  then show ?thesis
    by (simp add: consume_byte_def telnet_read_step_def TELNET_DELETE_CHARACTER_def
        delete_uint8_tacter_def Let_def split: sum.split)
next
  case TELNET_STATE_IN_SUBNEGOTIATION_VALUE
  then show ?thesis
    by (auto simp: consume_byte_def telnet_read_step_def TELNET_DELETE_CHARACTER_def
        delete_uint8_tacter_def Let_def split: sum.split dest: append_subnegotiation_state)
next
  case TELNET_STATE_IN_SB_IAC
  then show ?thesis
    by (auto simp: consume_byte_def telnet_read_step_def TELNET_DELETE_CHARACTER_def
        delete_uint8_tacter_def Let_def telnet_init_packet_def split: sum.split
        dest: append_subnegotiation_state)
qed

lemma consume_byte_spec:
  assumes "consume_byte cb w s c = Inr (s', del, ev)"
    and "spec_transition (state s) c = Some t"
  shows "t = (del, state s')"
  using consume_byte_spec_case [where cb = cb and w = w and s = s and c = c] assms by simp

lemma stream_run_payload:
  "stream_run cb w s bytes = Inr (s', kept, evs) \<Longrightarrow>
   spec_payload (state s) bytes = Some payload \<Longrightarrow> kept = payload"
proof (induction bytes arbitrary: s kept evs payload)
  case Nil
  then show ?case by simp
next
  case (Cons c cs)
  from Cons.prems(1) obtain s1 del ev where c1: "consume_byte cb w s c = Inr (s1, del, ev)"
    by (auto split: sum.splits)
  with Cons.prems(1) obtain kept1 evs1 where
    r1: "stream_run cb w s1 cs = Inr (s', kept1, evs1)"
    and k: "kept = (if del then kept1 else c # kept1)"
    by (auto split: sum.splits)
  from Cons.prems(2) obtain control st' p1 where
    tr: "spec_transition (state s) c = Some (control, st')"
    and p1: "spec_payload st' cs = Some p1"
    and p: "payload = (if control then p1 else c # p1)"
    by (auto split: option.splits)
  from consume_byte_spec [OF c1 tr] have "control = del" and "st' = state s1" by simp_all
  with Cons.IH [OF r1] p1 k p show ?case by simp
qed

lemma stream_run_control_bytes:
  "stream_run cb w s bytes = Inr (s', kept, evs) \<Longrightarrow>
   spec_control_bytes (state s) bytes = Some consumed \<Longrightarrow>
   length kept + consumed = length bytes"
proof (induction bytes arbitrary: s kept evs consumed)
  case Nil
  then show ?case by simp
next
  case (Cons c cs)
  from Cons.prems(1) obtain s1 del ev where c1: "consume_byte cb w s c = Inr (s1, del, ev)"
    by (auto split: sum.splits)
  with Cons.prems(1) obtain kept1 evs1 where
    r1: "stream_run cb w s1 cs = Inr (s', kept1, evs1)"
    and k: "kept = (if del then kept1 else c # kept1)"
    by (auto split: sum.splits)
  from Cons.prems(2) obtain control st' n1 where
    tr: "spec_transition (state s) c = Some (control, st')"
    and n1: "spec_control_bytes st' cs = Some n1"
    and n: "consumed = (if control then Suc n1 else n1)"
    by (auto split: option.splits)
  from consume_byte_spec [OF c1 tr] have "control = del" and "st' = state s1" by simp_all
  with Cons.IH [OF r1] n1 k n show ?case by simp
qed

lemma telnet_read_loop_stream:
  assumes "unat len \<le> length data"
  shows "loop_refines (telnet_read_loop cb w s data len 0 [])
           (stream_run cb w s (take (unat len) data)) data 0 []"
  using telnet_read_loop_refines [of 0 len data "unat len" cb w s "[]"] assms by simp

text \<open>Evaluation of the reader on a concrete buffer.\<close>

lemmas read_eval =
  telnet_read_def telnet_read_loop.simps telnet_read_step_def TELNET_DELETE_CHARACTER_def
  delete_uint8_tacter_def memmove_def handle_incomming_packet_def automatic_response_def
  telnet_write_packet_def telnet_get_option_def bit_get_def append_subnegotiation_def
  telnet_get_subnegotiation_option_def strlen_def memcpy_def telnet_init_packet_def
  initial_session_def default_packet_def telnet_constants Let_def word_le_nat_alt

subsection \<open>Compaction\<close>

text \<open>
  C2, as amended. For a session in the READY state and a buffer of at least \<open>len\<close>
  bytes, whenever \<open>telnet_read\<close> runs to completion (no shift by 64 or more, no array
  index out of range) and the bytes read hold no \<open>IAC\<close> inside a subnegotiation that is
  followed by a byte other than \<open>IAC\<close> and \<open>SE\<close>, the value returned is \<open>len\<close> minus
  the number of control bytes consumed, and the first returned-length bytes of the
  buffer are the original application payload bytes in their original order, with all
  recognized control sequences removed.
\<close>

theorem telnet_read_compaction:
  assumes "state s = TELNET_STATE_READY"
    and "unat len \<le> length data"
    and "telnet_read (Some s) (Some data) len callback writer
           = Inr (new_length, buffer, session', events)"
    and "spec_payload TELNET_STATE_READY (take (unat len) data) = Some payload"
    and "spec_control_bytes TELNET_STATE_READY (take (unat len) data) = Some consumed"
  shows "unat new_length = unat len - consumed
         \<and> map_option (take (unat new_length)) buffer = Some payload"
proof (cases "len = 0")
  case True
  with assms(3,4,5) show ?thesis by (auto simp: telnet_read_def)
next
  case False
  with assms(3) obtain s' d' where
    loop: "telnet_read_loop callback writer s data len 0 [] = Inr (s', d', new_length, events)"
    and buf: "buffer = Some d'"
    by (auto simp: telnet_read_def split: sum.splits)
  have ref: "loop_refines (Inr (s', d', new_length, events))
               (stream_run callback writer s (take (unat len) data)) data 0 []"
    using telnet_read_loop_stream [OF assms(2), of callback writer s] loop by simp
  obtain kept where
    run: "stream_run callback writer s (take (unat len) data) = Inr (s', kept, events)"
    and n: "unat new_length = length kept"
    and k: "take (unat new_length) d' = kept"
  proof (cases "stream_run callback writer s (take (unat len) data)")
    case (Inl f)
    with ref show ?thesis by (simp add: loop_refines_def)
  next
    case (Inr r)
    obtain s'' kept evs where r: "r = (s'', kept, evs)" by (cases r)
    from ref Inr r have "s' = s''" "events = evs" "unat new_length = length kept"
      "take (unat new_length) d' = kept"
      by (auto simp: loop_refines_def)
    with Inr r that show ?thesis by simp
  qed
  from stream_run_payload [OF run] assms(1,4)
  have "kept = payload"
    by simp
  moreover from stream_run_control_bytes [OF run] assms(1,2,5)
  have "length kept + consumed = unat len"
    by simp
  ultimately show ?thesis using n k buf by simp
qed

theorem telnet_read_compaction_witness:
  "state initial_session = TELNET_STATE_READY
   \<and> unat (4 :: size_t) \<le> length [0x68, 0xFF, 0xF1, 0x69 :: byte]
   \<and> telnet_read (Some initial_session) (Some [0x68, 0xFF, 0xF1, 0x69]) 4 None True
       = Inr (2, Some [0x68, 0x69, 0x69, 0x69],
              Some (initial_session\<lparr>packet := default_packet\<lparr>command := TELNET_NOP\<rparr>\<rparr>), [])
   \<and> spec_payload TELNET_STATE_READY (take (unat (4 :: size_t)) [0x68, 0xFF, 0xF1, 0x69])
       = Some [0x68, 0x69]
   \<and> spec_control_bytes TELNET_STATE_READY (take (unat (4 :: size_t)) [0x68, 0xFF, 0xF1, 0x69])
       = Some 2
   \<and> unat (2 :: size_t) = unat (4 :: size_t) - 2
   \<and> map_option (take (unat (2 :: size_t))) (Some [0x68, 0x69, 0x69, 0x69 :: byte])
       = Some [0x68, 0x69]"
proof -
  have st: "state initial_session = TELNET_STATE_READY"
    by (simp add: initial_session_def)
  have len: "unat (4 :: size_t) \<le> length [0x68, 0xFF, 0xF1, 0x69 :: byte]"
    by simp
  have run: "telnet_read (Some initial_session) (Some [0x68, 0xFF, 0xF1, 0x69]) 4 None True
       = Inr (2, Some [0x68, 0x69, 0x69, 0x69],
              Some (initial_session\<lparr>packet := default_packet\<lparr>command := TELNET_NOP\<rparr>\<rparr>), [])"
    by (simp add: read_eval)
  have pay: "spec_payload TELNET_STATE_READY (take (unat (4 :: size_t)) [0x68, 0xFF, 0xF1, 0x69])
       = Some [0x68, 0x69]"
    by (simp add: telnet_constants)
  have con: "spec_control_bytes TELNET_STATE_READY (take (unat (4 :: size_t)) [0x68, 0xFF, 0xF1, 0x69])
       = Some 2"
    by (simp add: telnet_constants)
  from telnet_read_compaction [OF st len run pay con] st len run pay con
  show ?thesis by blast
qed

text \<open>
  C2 as the specification states it, for every input buffer, fails on the three bytes
  \<open>IAC WILL 64\<close> read without a callback: the dispatch looks option 64 up in the
  64-bit bitset with \<open>1ULL << 64\<close>, which C leaves undefined, and the call has no
  value to return.
\<close>

theorem telnet_read_compaction_counterexample:
  "telnet_read (Some initial_session) (Some [0xFF, 0xFB, 0x40]) 3 None True
     = Inl Shift_Out_Of_Range"
  by (simp add: read_eval)

text \<open>
  The row the table leaves out is outside the amended claim. What the code does there:
  on a fresh session the bytes \<open>IAC SB 24 1 IAC WILL 3 0x42\<close> begin a new command
  inside an unterminated subnegotiation; the reader dispatches the subnegotiation, leaves
  the byte \<open>WILL\<close> in the buffer, takes the next byte, 3, as the command byte, and
  returns the two bytes \<open>FB 42\<close>.
\<close>

lemma telnet_read_command_inside_subnegotiation:
  "telnet_read (Some initial_session)
     (Some [0xFF, 0xFA, 0x18, 0x01, 0xFF, 0xFB, 0x03, 0x42]) 8 None True
   = Inr (2, Some [0xFB, 0x42, 0x42, 0x42, 0x42, 0x42, 0x42, 0x42],
          Some (initial_session\<lparr>packet := default_packet\<lparr>command := 3\<rparr>\<rparr>), [])
   \<and> spec_payload TELNET_STATE_READY [0xFF, 0xFA, 0x18, 0x01, 0xFF, 0xFB, 0x03, 0x42] = None"
  by (simp add: read_eval)

subsection \<open>Capacity of the subnegotiation data\<close>

lemma consume_byte_value:
  assumes "state s = TELNET_STATE_IN_SUBNEGOTIATION_VALUE" and "c \<noteq> TELNET_IAC"
  shows "consume_byte cb w s c =
           (case append_subnegotiation s c of Inl f \<Rightarrow> Inl f | Inr s' \<Rightarrow> Inr (s', True, []))"
  using assms
  by (simp add: consume_byte_def telnet_read_step_def TELNET_DELETE_CHARACTER_def
      delete_uint8_tacter_def Let_def split: sum.split)

lemma append_subnegotiation_full:
  "64 \<le> unat (subnegotiation_length (packet s)) \<Longrightarrow>
   append_subnegotiation s c = Inl Array_Out_Of_Bounds"
  by (simp add: append_subnegotiation_def Let_def)

lemma append_subnegotiation_room:
  assumes "unat (subnegotiation_length (packet s)) < 64"
  shows "\<exists>s'. append_subnegotiation s c = Inr s' \<and> state s' = state s
           \<and> unat (subnegotiation_length (packet s')) = Suc (unat (subnegotiation_length (packet s)))"
proof -
  have "subnegotiation_length (packet s) < 64"
    using assms by (simp add: word_less_nat_alt)
  then have "unat (subnegotiation_length (packet s) + 1) = Suc (unat (subnegotiation_length (packet s)))"
    by (rule unat_succ_lt)
  with assms show ?thesis by (simp add: append_subnegotiation_def Let_def)
qed

lemma stream_run_value_overflow:
  assumes "state s = TELNET_STATE_IN_SUBNEGOTIATION_VALUE" and "c \<noteq> TELNET_IAC"
    and "unat (subnegotiation_length (packet s)) \<le> 64"
    and "64 < unat (subnegotiation_length (packet s)) + n"
  shows "stream_run cb w s (replicate n c @ rest) = Inl Array_Out_Of_Bounds"
  using assms
proof (induction n arbitrary: s)
  case 0
  then show ?case by simp
next
  case (Suc n)
  show ?case
  proof (cases "unat (subnegotiation_length (packet s)) < 64")
    case False
    then have "append_subnegotiation s c = Inl Array_Out_Of_Bounds"
      by (simp add: append_subnegotiation_full)
    with Suc.prems show ?thesis by (simp add: consume_byte_value)
  next
    case True
    from append_subnegotiation_room [OF True, of c] obtain s' where
      a: "append_subnegotiation s c = Inr s'" and st: "state s' = state s"
      and l: "unat (subnegotiation_length (packet s')) = Suc (unat (subnegotiation_length (packet s)))"
      by blast
    have "stream_run cb w s' (replicate n c @ rest) = Inl Array_Out_Of_Bounds"
      using Suc.prems True st l by (intro Suc.IH) simp_all
    with Suc.prems a show ?thesis by (simp add: consume_byte_value)
  qed
qed

lemmas consume_eval =
  consume_byte_def telnet_read_step_def TELNET_DELETE_CHARACTER_def
  delete_uint8_tacter_def memmove_def handle_incomming_packet_def automatic_response_def
  telnet_write_packet_def telnet_get_option_def bit_get_def append_subnegotiation_def
  telnet_get_subnegotiation_option_def strlen_def memcpy_def telnet_init_packet_def
  initial_session_def default_packet_def telnet_constants Let_def word_le_nat_alt

text \<open>
  C3. Bounds safety asks that \<open>subnegotiation_length\<close> be checked against the capacity
  of 64 before each append. The code appends without a check: on a fresh session, the
  buffer \<open>IAC SB 24 0\<close> followed by 65 bytes \<open>0x41\<close> makes the reader store at index 64
  of the 64-byte array (the byte after \<open>SB\<close> is taken as the subnegotiation type and
  every byte after it is appended).
\<close>

theorem telnet_read_subnegotiation_overrun:
  "telnet_read (Some initial_session) (Some ([0xFF, 0xFA, 24, 0] @ replicate 65 0x41)) 69 None True
     = Inl Array_Out_Of_Bounds"
proof -
  let ?data = "[0xFF, 0xFA, 24, 0] @ replicate 65 (0x41 :: byte)"
  have tail: "stream_run None True s (replicate 65 0x41) = Inl Array_Out_Of_Bounds"
    if "state s = TELNET_STATE_IN_SUBNEGOTIATION_VALUE"
      and "unat (subnegotiation_length (packet s)) = 1" for s
    using stream_run_value_overflow [where n = 65 and c = "0x41" and rest = "[]" and s = s] that
    by (simp add: TELNET_IAC_def)
  have run: "stream_run None True initial_session ?data = Inl Array_Out_Of_Bounds"
    by (simp add: consume_eval tail)
  have "loop_refines (telnet_read_loop None True initial_session ?data 69 0 [])
          (stream_run None True initial_session (take (unat (69 :: size_t)) ?data)) ?data 0 []"
    by (rule telnet_read_loop_stream) simp
  with run have "telnet_read_loop None True initial_session ?data 69 0 [] = Inl Array_Out_Of_Bounds"
    by (simp add: loop_refines_def)
  then show ?thesis by (simp add: telnet_read_def)
qed

subsection \<open>The current packet between parse cycles\<close>

text \<open>
  C5. The packet lifecycle asks that the current packet be back at its defaults whenever
  the reader begins a new control sequence, so that no data appended during one
  subnegotiation is still counted when the next packet is dispatched. The code resets
  the packet only in \<open>telnet_init\<close> and in the branch of \<open>IN_SB_IAC\<close> that meets a
  byte other than \<open>IAC\<close> and \<open>SE\<close>. On a fresh session, the two subnegotiations
  \<open>IAC SB 24 0 0x61 IAC SE\<close> and \<open>IAC SB 24 0 0x62 IAC SE\<close> in one buffer are dispatched
  as a packet of length 2 and then as a packet of length 4, which still holds the two
  bytes of the first.
\<close>

theorem telnet_read_packet_not_reset:
  "telnet_read (Some initial_session)
     (Some [0xFF, 0xFA, 24, 0, 0x61, 0xFF, 0xF0, 0xFF, 0xFA, 24, 0, 0x62, 0xFF, 0xF0]) 14
     (Some (\<lambda>s p. False)) True
   = Inr (0,
          Some [0xF0, 0xF0, 0xF0, 0xF0, 0xF0, 0xF0, 0xF0, 0xF0, 0xF0, 0xF0, 0xF0, 0xF0, 0xF0, 0xF0],
          Some (initial_session\<lparr>packet := default_packet
                  \<lparr>command := TELNET_SB, subnegotiation_type := 24,
                   subnegotiation_length := 4,
                   subnegotiation_data := (replicate 64 0)[0 := 0, 1 := 0x61, 2 := 0, 3 := 0x62]\<rparr>\<rparr>),
          [Callback_Invoked (default_packet
             \<lparr>command := TELNET_SB, subnegotiation_type := 24,
              subnegotiation_length := 2,
              subnegotiation_data := (replicate 64 0)[0 := 0, 1 := 0x61]\<rparr>),
           Callback_Invoked (default_packet
             \<lparr>command := TELNET_SB, subnegotiation_type := 24,
              subnegotiation_length := 4,
              subnegotiation_data := (replicate 64 0)[0 := 0, 1 := 0x61, 2 := 0, 3 := 0x62]\<rparr>)])"
  by (simp add: read_eval)

subsection \<open>The bulk option setter\<close>

lemma supported_options_loop_unchanged: "supported_options_loop s opt = Inr s"
proof (induction s opt rule: supported_options_loop.induct)
  case (1 s opt)
  show ?case
  proof (cases "unat opt < TELNET_OPTION_MAX")
    case True
    then have "bit_get (options s) opt = Inr ((options s AND push_bit (unat opt) 1) \<noteq> 0)"
      by (simp add: bit_get_def TELNET_OPTION_MAX_def)
    with True 1 show ?thesis
      by (simp add: supported_options_loop.simps [of s opt])
  next
    case False
    then show ?thesis by (simp add: supported_options_loop.simps [of s opt])
  qed
qed

lemma telnet_supported_options_unchanged:
  "telnet_supported_options session opt args = Inr session"
  by (cases session) (simp_all add: telnet_supported_options_def supported_options_loop_unchanged)

text \<open>
  C6. The bulk setter is to set the bit of each option named in its argument list. The
  code sets none: after \<open>telnet_supported_options(&session, 3, TELNET_OPTION_MAX)\<close> on
  a fresh session (option 3 is SUPPRESS GO AHEAD, 50 the terminating sentinel) the
  session is what it was, and option 3 still reads as unsupported.
\<close>

theorem telnet_supported_options_sets_nothing:
  "telnet_supported_options (Some initial_session) 3 [50] = Inr (Some initial_session)
   \<and> telnet_get_option (Some initial_session) 3 = Inr False"
  by (simp add: telnet_supported_options_unchanged telnet_get_option_def bit_get_def
      initial_session_def)

subsection \<open>Serialisation of a packet\<close>

lemma telnet_write_packet_subnegotiation:
  assumes "command p = TELNET_SB" and "unat (subnegotiation_length p) \<le> 64"
  shows "telnet_write_packet (Some s) (Some p) True
           = Inr [[TELNET_IAC, TELNET_SB, option p, subnegotiation_type p]
                  @ take (unat (subnegotiation_length p)) (subnegotiation_data p)
                  @ [TELNET_IAC, TELNET_SE]]"
  using assms by (simp add: telnet_write_packet_def telnet_constants)

text \<open>
  C8. Packet serialisation asks for \<open>IAC\<close> to be doubled wherever it occurs inside the
  subnegotiation data. The code copies the data as it is: the packet \<open>SB 24 IS\<close> with
  the one data byte \<open>0xFF\<close> is written as \<open>FF FA 18 00 FF FF F0\<close>, with a single
  \<open>0xFF\<close> before the terminator \<open>IAC SE\<close>, where the claim asks for
  \<open>FF FA 18 00 FF FF FF F0\<close>.
\<close>

theorem telnet_write_packet_iac_not_doubled:
  "telnet_write_packet (Some initial_session)
     (Some (default_packet\<lparr>command := TELNET_SB, option := 24,
              subnegotiation_type := TELNET_SE_IS, subnegotiation_length := 1,
              subnegotiation_data := 0xFF # replicate 63 0\<rparr>)) True
   = Inr [[0xFF, 0xFA, 24, 0, 0xFF, 0xFF, 0xF0]]"
  by (simp add: telnet_write_packet_def default_packet_def telnet_constants)

subsection \<open>Invalid arguments of telnet_read\<close>

text \<open>
  C9, as amended. A call of \<open>telnet_read\<close> with no data or with length 0 changes
  nothing and returns 0; a call with data and a length other than 0 but no session
  changes nothing and returns the length it was given.
\<close>

theorem telnet_read_invalid_arguments:
  "(data = None \<or> len = 0 \<longrightarrow>
      telnet_read session data len callback writer = Inr (0, data, session, []))
   \<and> (data \<noteq> None \<and> len \<noteq> 0 \<longrightarrow>
      telnet_read None data len callback writer = Inr (len, data, None, []))"
  by (cases data) (simp_all add: telnet_read_def)

theorem telnet_read_invalid_arguments_witness:
  "telnet_read (Some initial_session) None 5 None True = Inr (0, None, Some initial_session, [])
   \<and> telnet_read (Some initial_session) (Some [0x41]) 0 None True
       = Inr (0, Some [0x41], Some initial_session, [])
   \<and> telnet_read None (Some [0x41]) 1 None True = Inr (1, Some [0x41], None, [])"
  using telnet_read_invalid_arguments [of None 5 "Some initial_session" None True]
    telnet_read_invalid_arguments [of "Some [0x41]" 0 "Some initial_session" None True]
    telnet_read_invalid_arguments [of "Some [0x41]" 1 None None True]
  by simp

text \<open>
  C9 as the specification states it has every call with a null or empty required input
  return the original length. With no data and length 5 the code returns 0, not 5.
\<close>

theorem telnet_read_null_data_counterexample:
  "telnet_read (Some initial_session) None 5 None True
     \<noteq> Inr (5, None, Some initial_session, [])"
  by (simp add: telnet_read_def)

subsection \<open>The automatic reply\<close>

lemma writer_invocations_map [simp]: "writer_invocations (map Writer_Invoked ws) = ws"
  by (induction ws) simp_all

lemma bit_get_bit: "unat index < 64 \<Longrightarrow> bit_get bits index = Inr (bit bits (unat index))"
  by (simp add: bit_get_def bit_iff_and_push_bit_not_eq_0)

lemma strlen_terminated:
  assumes "0 \<in> set str" and "length (takeWhile (\<lambda>b. b \<noteq> 0) str) \<le> 64"
  shows "strlen str = Inr (word_of_nat (length (takeWhile (\<lambda>b. b \<noteq> 0) str)))"
    and "unat (word_of_nat (length (takeWhile (\<lambda>b. b \<noteq> 0) str)) :: size_t)
           = length (takeWhile (\<lambda>b. b \<noteq> 0) str)"
  using assms by (simp_all add: strlen_def unat_of_nat)

lemma take_memcpy_strlen:
  "take (length (takeWhile P str)) (memcpy dst str (length (takeWhile P str))) = takeWhile P str"
proof -
  have "length (takeWhile P str) \<le> length str" by (rule length_takeWhile_le)
  moreover have "take (length (takeWhile P str)) str = takeWhile P str"
    by (induction str) simp_all
  ultimately show ?thesis by (simp add: memcpy_def)
qed

lemma automatic_response_table:
  assumes "reply_defined s pkt"
  shows "automatic_response s pkt True = Inr (spec_reply s pkt)"
proof -
  consider (will) "command pkt = TELNET_WILL" | (wont) "command pkt = TELNET_WONT"
    | (do) "command pkt = TELNET_DO" | (dont) "command pkt = TELNET_DONT"
    | (send) "command pkt = TELNET_SB" "subnegotiation_type pkt = TELNET_SE_SEND"
    | (sb) "command pkt = TELNET_SB" "subnegotiation_type pkt \<noteq> TELNET_SE_SEND"
    | (other) "command pkt \<noteq> TELNET_WILL" "command pkt \<noteq> TELNET_WONT"
        "command pkt \<noteq> TELNET_DO" "command pkt \<noteq> TELNET_DONT" "command pkt \<noteq> TELNET_SB"
    by blast
  then show ?thesis
  proof cases
    case will
    with assms have "unat (option pkt) < 64" by (simp add: reply_defined_def)
    with will show ?thesis
      by (simp add: automatic_response_def spec_reply_def telnet_get_option_def bit_get_bit
          telnet_write_packet_def default_packet_def telnet_constants)
  next
    case wont
    then show ?thesis
      by (simp add: automatic_response_def spec_reply_def
          telnet_write_packet_def default_packet_def telnet_constants)
  next
    case do
    with assms have "unat (option pkt) < 64" by (simp add: reply_defined_def)
    with do show ?thesis
      by (simp add: automatic_response_def spec_reply_def telnet_get_option_def bit_get_bit
          telnet_write_packet_def default_packet_def telnet_constants)
  next
    case dont
    then show ?thesis
      by (simp add: automatic_response_def spec_reply_def
          telnet_write_packet_def default_packet_def telnet_constants)
  next
    case send
    with assms have r: "unat (option pkt) < TELNET_OPTION_MAX"
      by (simp add: reply_defined_def telnet_constants)
    show ?thesis
    proof (cases "subnegotiation_options s (unat (option pkt))")
      case None
      with send r show ?thesis
        by (simp add: automatic_response_def spec_reply_def telnet_get_subnegotiation_option_def
            telnet_constants)
    next
      case (Some str)
      with assms send have t: "0 \<in> set str" "length (takeWhile (\<lambda>b. b \<noteq> 0) str) \<le> 64"
        by (simp_all add: reply_defined_def telnet_constants)
      note sl = strlen_terminated [OF t]
      from send r Some t show ?thesis
        by (simp add: automatic_response_def spec_reply_def telnet_get_subnegotiation_option_def
            sl take_memcpy_strlen telnet_write_packet_def default_packet_def telnet_constants
            Let_def)
    qed
  next
    case sb
    then show ?thesis
      by (simp add: automatic_response_def spec_reply_def telnet_constants)
  next
    case other
    then show ?thesis
      by (simp add: automatic_response_def spec_reply_def)
  qed
qed

text \<open>
  C4, as amended. For every completed packet whose automatic reply is not suppressed
  and on which the reply is defined, the dispatch, given a writer, makes exactly the
  writes of the negotiation table: one write \<open>IAC DO option\<close> or \<open>IAC DONT option\<close>
  for \<open>WILL\<close> according to the bit of the option, \<open>IAC DONT option\<close> for \<open>WONT\<close>,
  \<open>IAC WILL option\<close> or \<open>IAC WONT option\<close> for \<open>DO\<close>, \<open>IAC WONT option\<close> for
  \<open>DONT\<close>, one write \<open>IAC SB option IS reply IAC SE\<close> for \<open>SB option SEND\<close> with a
  registered reply, and no write for any other command or for \<open>SB\<close> with no reply
  registered.
\<close>

theorem dispatch_policy:
  assumes "not_suppressed callback s" and "reply_defined s (packet s)"
  shows "map_sum id writer_invocations (handle_incomming_packet (Some s) True callback)
           = Inr (spec_reply s (packet s))"
  using assms automatic_response_table [OF assms(2)]
  by (cases callback) (simp_all add: handle_incomming_packet_def not_suppressed_def)

theorem dispatch_policy_witness:
  "not_suppressed None
     (initial_session\<lparr>options := 8, packet := default_packet\<lparr>command := TELNET_WILL, option := 3\<rparr>\<rparr>)
   \<and> reply_defined
       (initial_session\<lparr>options := 8, packet := default_packet\<lparr>command := TELNET_WILL, option := 3\<rparr>\<rparr>)
       (default_packet\<lparr>command := TELNET_WILL, option := 3\<rparr>)
   \<and> map_sum id writer_invocations
       (handle_incomming_packet
          (Some (initial_session\<lparr>options := 8,
                   packet := default_packet\<lparr>command := TELNET_WILL, option := 3\<rparr>\<rparr>)) True None)
       = Inr [[0xFF, 0xFD, 3]]
   \<and> not_suppressed (Some (\<lambda>s p. True))
       (initial_session\<lparr>subnegotiation_options := (\<lambda>_. None)(24 := Some [0x56, 0x54, 0]),
          packet := default_packet\<lparr>command := TELNET_SB, option := 24,
                      subnegotiation_type := TELNET_SE_SEND\<rparr>\<rparr>)
   \<and> reply_defined
       (initial_session\<lparr>subnegotiation_options := (\<lambda>_. None)(24 := Some [0x56, 0x54, 0]),
          packet := default_packet\<lparr>command := TELNET_SB, option := 24,
                      subnegotiation_type := TELNET_SE_SEND\<rparr>\<rparr>)
       (default_packet\<lparr>command := TELNET_SB, option := 24, subnegotiation_type := TELNET_SE_SEND\<rparr>)
   \<and> map_sum id writer_invocations
       (handle_incomming_packet
          (Some (initial_session\<lparr>subnegotiation_options := (\<lambda>_. None)(24 := Some [0x56, 0x54, 0]),
                   packet := default_packet\<lparr>command := TELNET_SB, option := 24,
                               subnegotiation_type := TELNET_SE_SEND\<rparr>\<rparr>)) True
          (Some (\<lambda>s p. True)))
       = Inr [[0xFF, 0xFA, 24, 0, 0x56, 0x54, 0xFF, 0xF0]]"
  using dispatch_policy [of None
      "initial_session\<lparr>options := 8, packet := default_packet\<lparr>command := TELNET_WILL, option := 3\<rparr>\<rparr>"]
    dispatch_policy [of "Some (\<lambda>s p. True)"
      "initial_session\<lparr>subnegotiation_options := (\<lambda>_. None)(24 := Some [0x56, 0x54, 0]),
          packet := default_packet\<lparr>command := TELNET_SB, option := 24,
                      subnegotiation_type := TELNET_SE_SEND\<rparr>\<rparr>"]
  by (simp add: not_suppressed_def reply_defined_def spec_reply_def initial_session_def
      default_packet_def telnet_constants bit_numeral_simps)

text \<open>
  C4 as the specification states it, for every completed packet, fails on \<open>WILL 64\<close>:
  the bitset has no bit 64, so the table answers \<open>DONT 64\<close>, but the code evaluates
  \<open>1ULL << 64\<close>, which C leaves undefined, and no reply is defined.
\<close>

theorem dispatch_policy_counterexample:
  "handle_incomming_packet
     (Some (initial_session\<lparr>packet := default_packet\<lparr>command := TELNET_WILL, option := 64\<rparr>\<rparr>))
     True None
   = Inl Shift_Out_Of_Range"
  by (simp add: handle_incomming_packet_def automatic_response_def telnet_get_option_def
      bit_get_def initial_session_def default_packet_def telnet_constants)

subsection \<open>Suppression by the callback\<close>



subsection \<open>Chunked reads\<close>

lemma stream_run_append:
  "stream_run cb w s (a @ b) =
     (case stream_run cb w s a of
        Inl f \<Rightarrow> Inl f
      | Inr (s1, kept1, ev1) \<Rightarrow>
          (case stream_run cb w s1 b of
             Inl f \<Rightarrow> Inl f
           | Inr (s2, kept2, ev2) \<Rightarrow> Inr (s2, kept1 @ kept2, ev1 @ ev2)))"
proof (induction a arbitrary: s)
  case Nil
  show ?case by (simp split: sum.split)
next
  case (Cons c cs)
  show ?case
  proof (cases "consume_byte cb w s c")
    case (Inl f)
    then show ?thesis by simp
  next
    case (Inr r)
    obtain s' del ev where r: "r = (s', del, ev)" by (cases r)
    show ?thesis
      using Inr r Cons.IH [of s']
      by (simp split: sum.split)
  qed
qed

lemma read_view_stream:
  assumes "length bytes < 2 ^ 64"
  shows "read_view (Some s) bytes cb w =
           (case stream_run cb w s bytes of
              Inl f \<Rightarrow> Inl f
            | Inr (s', kept, ev) \<Rightarrow> Inr (Some s', kept, ev))"
proof (cases "bytes = []")
  case True
  then show ?thesis by (simp add: read_view_def telnet_read_def)
next
  case False
  let ?len = "word_of_nat (length bytes) :: size_t"
  from assms have u: "unat ?len = length bytes" by (simp add: unat_of_nat)
  with False have nz: "?len \<noteq> 0" by (metis length_0_conv unat_0)
  have ref: "loop_refines (telnet_read_loop cb w s bytes ?len 0 [])
           (stream_run cb w s bytes) bytes 0 []"
    using telnet_read_loop_stream [of ?len bytes cb w s] u by simp
  show ?thesis
  proof (cases "stream_run cb w s bytes")
    case (Inl f)
    with ref have "telnet_read_loop cb w s bytes ?len 0 [] = Inl f"
      by (simp add: loop_refines_def)
    with Inl nz show ?thesis by (simp add: read_view_def telnet_read_def)
  next
    case (Inr r)
    obtain s' kept ev where r: "r = (s', kept, ev)" by (cases r)
    from ref Inr r obtain d' n where
      loop: "telnet_read_loop cb w s bytes ?len 0 [] = Inr (s', d', n, ev)"
      and k: "take (unat n) d' = kept"
      by (auto simp: loop_refines_def split: sum.splits)
    with Inr r nz show ?thesis by (simp add: read_view_def telnet_read_def)
  qed
qed

text \<open>
  C10. For every session, a freshly initialised one among them, and every split of a
  byte sequence into \<open>a\<close> and \<open>b\<close>, \<open>telnet_read\<close> on \<open>a\<close> and then on \<open>b\<close> yields
  the same callback and writer invocations in the same order, the same concatenation
  of retained payload and the same session as one \<open>telnet_read\<close> on \<open>a @ b\<close>; when one
  of the two ways meets undefined behaviour, so does the other. The length of a buffer
  is a \<open>size_t\<close>, hence below \<open>2 ^ 64\<close>.
\<close>

theorem telnet_read_chunked:
  assumes "length (a @ b) < 2 ^ 64"
  shows "read_then (read_view (Some s) a callback writer)
           (\<lambda>session'. read_view session' b callback writer)
         = read_view (Some s) (a @ b) callback writer"
proof -
  from assms have la: "length a < 2 ^ 64" and lb: "length b < 2 ^ 64" by simp_all
  show ?thesis
  proof (cases "stream_run callback writer s a")
    case (Inl f)
    then show ?thesis
      by (simp add: read_then_def read_view_stream [OF la] read_view_stream [OF assms]
          stream_run_append)
  next
    case (Inr r)
    obtain s1 kept1 ev1 where r: "r = (s1, kept1, ev1)" by (cases r)
    show ?thesis
      using Inr r
      by (simp add: read_then_def read_view_stream [OF la] read_view_stream [OF lb]
          read_view_stream [OF assms] stream_run_append split: sum.split)
  qed
qed

theorem telnet_read_chunked_witness:
  "length ([0x68, 0xFF] @ [0xFB, 0x03, 0x69 :: byte]) < 2 ^ 64
   \<and> read_then (read_view (Some initial_session) [0x68, 0xFF] None True)
         (\<lambda>session'. read_view session' [0xFB, 0x03, 0x69] None True)
       = Inr (Some (initial_session\<lparr>packet := default_packet\<lparr>command := TELNET_WILL, option := 3\<rparr>\<rparr>),
              [0x68, 0x69], [Writer_Invoked [0xFF, 0xFE, 0x03]])
   \<and> read_view (Some initial_session) ([0x68, 0xFF] @ [0xFB, 0x03, 0x69]) None True
       = Inr (Some (initial_session\<lparr>packet := default_packet\<lparr>command := TELNET_WILL, option := 3\<rparr>\<rparr>),
              [0x68, 0x69], [Writer_Invoked [0xFF, 0xFE, 0x03]])"
proof -
  have len: "length ([0x68, 0xFF] @ [0xFB, 0x03, 0x69 :: byte]) < 2 ^ 64"
    by simp
  have whole: "read_view (Some initial_session) ([0x68, 0xFF] @ [0xFB, 0x03, 0x69]) None True
       = Inr (Some (initial_session\<lparr>packet := default_packet\<lparr>command := TELNET_WILL, option := 3\<rparr>\<rparr>),
              [0x68, 0x69], [Writer_Invoked [0xFF, 0xFE, 0x03]])"
    by (simp add: read_view_def read_eval)
  from telnet_read_chunked [OF len, of initial_session None True] whole len
  show ?thesis by simp
qed

subsection \<open>Escaping of application data\<close>

text \<open>
  The bytes \<open>telnet_write\<close> delivers to the writer, all invocations concatenated: every
  byte of the data as it is, and two more \<open>0xFF\<close> after each \<open>0xFF\<close>.
\<close>

lemma code_escape_iac: "code_escape TELNET_IAC = [TELNET_IAC, TELNET_IAC, TELNET_IAC]"
  by (simp add: code_escape_def)

lemma code_escape_other: "c \<noteq> TELNET_IAC \<Longrightarrow> code_escape c = [c]"
  by (simp add: code_escape_def)

lemma take_drop_snoc:
  assumes "start \<le> i" and "i < length data"
  shows "take (Suc i - start) (drop start data) = take (i - start) (drop start data) @ [data ! i]"
proof -
  from assms have "Suc i - start = Suc (i - start)" by simp
  moreover from assms have "i - start < length (drop start data)" by simp
  moreover from assms have "drop start data ! (i - start) = data ! i" by simp
  ultimately show ?thesis by (simp add: take_Suc_conv_app_nth)
qed

lemma telnet_write_loop_concat:
  assumes "unat start \<le> unat i" and "unat i \<le> unat len" and "unat len \<le> length data"
    and "unat new_length = unat i - unat start"
  shows "concat (telnet_write_loop data len i start new_length out)
           = concat out @ take (unat i - unat start) (drop (unat start) data)
             @ concat (map code_escape (drop (unat i) (take (unat len) data)))"
  using assms
proof (induction data len i start new_length out rule: telnet_write_loop.induct)
  case (1 data len i start new_length out)
  show ?case
  proof (cases "i < len")
    case False
    with "1.prems" have "unat i = unat len" by (simp add: word_less_nat_alt)
    with False "1.prems" show ?thesis
      by (simp add: telnet_write_loop.simps [of data len i] span_def)
  next
    case True
    then have ltn: "unat i < unat len" by (simp add: word_less_nat_alt)
    have i1: "unat (i + 1) = Suc (unat i)" by (rule unat_succ_lt [OF True])
    have "new_length < len"
      using "1.prems" ltn by (simp add: word_less_nat_alt)
    then have n1: "unat (new_length + 1) = Suc (unat i) - unat start"
      using unat_succ_lt [of new_length len] "1.prems" by simp
    let ?c = "data ! unat i"
    have dr: "drop (unat i) (take (unat len) data)
                = ?c # drop (Suc (unat i)) (take (unat len) data)"
      using ltn "1.prems"(3) Cons_nth_drop_Suc [of "unat i" "take (unat len) data"] by simp
    have sn: "take (Suc (unat i) - unat start) (drop (unat start) data)
                = take (unat i - unat start) (drop (unat start) data) @ [?c]"
      using "1.prems" ltn by (intro take_drop_snoc) simp_all
    show ?thesis
    proof (cases "?c = TELNET_IAC")
      case iac: True
      have "concat (telnet_write_loop data len (i + 1) (i + 1) 0
                (out @ [span data start (new_length + 1), [TELNET_IAC, TELNET_IAC]]))
            = concat (out @ [span data start (new_length + 1), [TELNET_IAC, TELNET_IAC]])
              @ take (unat (i + 1) - unat (i + 1)) (drop (unat (i + 1)) data)
              @ concat (map code_escape (drop (unat (i + 1)) (take (unat len) data)))"
        using True iac "1.prems" ltn
        by (intro "1.IH"(1)) (simp_all add: i1)
      then show ?thesis
        using True iac
        by (simp add: telnet_write_loop.simps [of data len i] Let_def span_def n1 sn i1 dr
            code_escape_iac)
    next
      case other: False
      have "concat (telnet_write_loop data len (i + 1) start (new_length + 1) out)
            = concat out
              @ take (unat (i + 1) - unat start) (drop (unat start) data)
              @ concat (map code_escape (drop (unat (i + 1)) (take (unat len) data)))"
        using True other "1.prems" ltn
        by (intro "1.IH"(2)) (simp_all add: i1 n1)
      then show ?thesis
        using True other
        by (simp add: telnet_write_loop.simps [of data len i] Let_def sn i1 dr code_escape_other)
    qed
  qed
qed

lemma telnet_write_concat:
  assumes "unat len \<le> length data"
  shows "concat (telnet_write (Some s) (Some data) len True)
           = concat (map code_escape (take (unat len) data))"
proof (cases "len = 0")
  case True
  then show ?thesis by (simp add: telnet_write_def)
next
  case False
  then show ?thesis
    using telnet_write_loop_concat [of 0 0 len data 0 "[]"] assms
    by (simp add: telnet_write_def)
qed

text \<open>
  C1. Round-trip escaping asks that \<open>telnet_write\<close> deliver the data with every
  \<open>0xFF\<close> replaced by one \<open>IAC IAC\<close> pair, so that the reader gives the data back. On
  the two bytes \<open>0xFF 0x41\<close> the code invokes the writer with the run up to and
  including the \<open>0xFF\<close> itself, with the two-byte escape, and with the rest: the bytes
  \<open>FF FF FF 41\<close> reach the sink. Read back on a fresh session they leave the single
  payload byte \<open>0xFF\<close>; the third \<open>0xFF\<close> opens a command and \<open>0x41\<close> is consumed
  as its command byte.
\<close>

theorem telnet_write_iac_three_bytes:
  "telnet_write (Some initial_session) (Some [0xFF, 0x41]) 2 True
     = [[0xFF], [0xFF, 0xFF], [0x41]]
   \<and> read_view (Some initial_session) [0xFF, 0xFF, 0xFF, 0x41] None True
     = Inr (Some (initial_session\<lparr>packet := default_packet\<lparr>command := 0x41\<rparr>\<rparr>), [0xFF], [])"
  by (simp add: telnet_write_def telnet_write_loop.simps span_def read_view_def read_eval)

end
